theory Spec2Isabelle
  imports Main "HOL-Library.Multiset" "HOL-Library.Sublist" "HOL-Library.Product_Lexorder"
begin

section \<open>Entry model (types.ts)\<close>

text \<open>
  JavaScript numbers are modelled as \<^typ>\<open>int\<close>: timestamps come from \<^verbatim>\<open>Date.now()\<close> and the
  numeric settings are whole numbers in every shipped default. Fractions and NaN are outside
  the model. A string is a list of UTF-16 code units, and a \<^typ>\<open>char\<close> stands for a code
  unit below 256; the claims compare strings with \<^verbatim>\<open>===\<close> only.
  The field \<^verbatim>\<open>id\<close> is called \<open>idE\<close> because \<open>id\<close> is the identity function of HOL.
\<close>

datatype ContentType = TextContent | CodeContent

record ClipboardEntry =
  idE :: string
  content :: string
  timestamp :: int
  isPinned :: bool
  sourceFile :: "string option"
  lineCount :: nat
  contentType :: ContentType

record ClipboardManagerConfig =
  maxHistorySize :: int
  showTimestamp :: bool
  enableNotifications :: bool
  autoCleanupDays :: int
  excludePatterns :: "string list"
  monitoringInterval :: int
  previewLength :: int

text \<open>
  The stored record. A value read back from the host store may lack its \<^verbatim>\<open>entries\<close> field,
  which is why the field is optional here.
\<close>

record SerializedHistory =
  entriesField :: "ClipboardEntry list option"
  version :: string

section \<open>Persistence adapter (storage.ts)\<close>

text \<open>
  The host's \<^verbatim>\<open>globalState\<close> is a key-value store: \<^verbatim>\<open>update(key, value)\<close> replaces the value
  under the key, \<^verbatim>\<open>update(key, undefined)\<close> removes it, \<^verbatim>\<open>get(key)\<close> reads it. It holds
  snapshots: a value handed to it is not changed by later mutation of the engine's list.
\<close>

type_synonym Memento = "string \<rightharpoonup> SerializedHistory"

definition STORAGE_KEY :: string where
  "STORAGE_KEY = ''clipboardHistory''"

definition STORAGE_VERSION :: string where
  "STORAGE_VERSION = ''1.0.0''"

definition saveHistory :: "ClipboardEntry list \<Rightarrow> Memento \<Rightarrow> Memento" where
  "saveHistory es m = m(STORAGE_KEY \<mapsto> \<lparr>entriesField = Some es, version = STORAGE_VERSION\<rparr>)"

definition loadHistory :: "Memento \<Rightarrow> ClipboardEntry list" where
  "loadHistory m =
     (case m STORAGE_KEY of
        None \<Rightarrow> []
      | Some d \<Rightarrow> (case entriesField d of None \<Rightarrow> [] | Some es \<Rightarrow> es))"

definition clearHistory_storage :: "Memento \<Rightarrow> Memento" where
  "clearHistory_storage m = m(STORAGE_KEY := None)"

section \<open>History engine (clipboardManager.ts)\<close>

subsection \<open>State, host answers and observable effects\<close>

text \<open>
  Every call into the host is an input of the model: what the clipboard returned, what the
  clock and the random generator returned, whether a store update or a clipboard write
  resolved. Every effect on the host is appended to \<open>trace\<close>.
\<close>

datatype effect =
  Update "SerializedHistory option"
  | Fire
  | ShowInformationMessage string
  | WriteText string

datatype error = StorageError | ClipboardError

record state =
  entries :: "ClipboardEntry list"
  lastClipboardContent :: string
  monitoring :: bool
  config :: ClipboardManagerConfig
  globalState :: Memento
  trace :: "effect list"

record env =
  now :: int
  newId :: string
  saveOk :: bool

text \<open>
  The regular-expression engine of the language is a parameter: \<open>rx source flags subject\<close>
  is \<^verbatim>\<open>new RegExp(source, flags).test(subject)\<close>, and \<open>None\<close> when the constructor throws.
\<close>

type_synonym regexp = "string \<Rightarrow> string \<Rightarrow> string \<Rightarrow> bool option"

definition construct :: "Memento \<Rightarrow> ClipboardManagerConfig \<Rightarrow> state" where
  "construct m cfg =
     \<lparr>entries = [], lastClipboardContent = [], monitoring = False, config = cfg,
      globalState = m, trace = []\<rparr>"

definition emit :: "effect \<Rightarrow> state \<Rightarrow> state" where
  "emit e s = s\<lparr>trace := trace s @ [e]\<rparr>"

text \<open>\<^verbatim>\<open>await this.storage.saveHistory(es)\<close>: the update either resolves or rejects.\<close>

definition persist :: "bool \<Rightarrow> ClipboardEntry list \<Rightarrow> state \<Rightarrow> error option \<times> state" where
  "persist ok es s =
     (if ok
      then (None, emit (Update (Some \<lparr>entriesField = Some es, version = STORAGE_VERSION\<rparr>))
                    (s\<lparr>globalState := saveHistory es (globalState s)\<rparr>))
      else (Some StorageError, s))"

subsection \<open>Pure helpers\<close>

text \<open>
  \<^verbatim>\<open>trim\<close> strips white space and line terminators at both ends. Among the code units
  below 256 these are tab, line feed, vertical tab, form feed, carriage return, space and
  the no-break space U+00A0; the others it strips (U+1680, U+2000 to U+200A, U+2028,
  U+2029, U+202F, U+205F, U+3000, U+FEFF) lie outside \<^typ>\<open>char\<close>.
\<close>

definition isSpaceChar :: "char \<Rightarrow> bool" where
  "isSpaceChar c =
     (c \<in> set [CHR 0x09, CHR 0x0A, CHR 0x0B, CHR 0x0C, CHR 0x0D, CHR 0x20, CHR 0xA0])"

definition trim :: "string \<Rightarrow> string" where
  "trim s = rev (dropWhile isSpaceChar (rev (dropWhile isSpaceChar s)))"

definition getPreview :: "ClipboardManagerConfig \<Rightarrow> string \<Rightarrow> string" where
  "getPreview cfg c =
     (let singleLine = trim (map (\<lambda>ch. if ch = CHR 0x0A then CHR '' '' else ch) c)
      in if int (length singleLine) > previewLength cfg
         then take (nat (previewLength cfg)) singleLine @ ''...''
         else singleLine)"

definition codePatterns :: "(string \<times> string) list" where
  "codePatterns =
     [(''^(import|export|function|class|const|let|var|if|for|while)'' @ [CHR 0x5C, CHR ''s''], ''m''),
      (''[{}['' @ [CHR 0x5C] @ ''];()]'', []),
      (''=>'', []),
      ([CHR 0x5C, CHR ''/'', CHR 0x5C, CHR ''/''], []),
      ([CHR 0x5C, CHR ''/'', CHR 0x5C, CHR ''*''], [])]"

definition detectContentType :: "regexp \<Rightarrow> string \<Rightarrow> ContentType" where
  "detectContentType rx c =
     (if list_ex (\<lambda>(p, fl). rx p fl c = Some True) codePatterns then CodeContent else TextContent)"

fun shouldExclude_loop :: "regexp \<Rightarrow> string list \<Rightarrow> string \<Rightarrow> bool" where
  "shouldExclude_loop rx [] c = False"
| "shouldExclude_loop rx (p # ps) c =
     (case rx p [] c of
        Some True \<Rightarrow> True
      | Some False \<Rightarrow> shouldExclude_loop rx ps c
      | None \<Rightarrow> shouldExclude_loop rx ps c)"

definition shouldExclude :: "regexp \<Rightarrow> ClipboardManagerConfig \<Rightarrow> string \<Rightarrow> bool" where
  "shouldExclude rx cfg c = shouldExclude_loop rx (excludePatterns cfg) c"

text \<open>\<^verbatim>\<open>xs.splice(start)\<close> keeps the elements before \<open>start\<close>; a negative \<open>start\<close> counts from the end.\<close>

definition splice_from :: "int \<Rightarrow> 'a list \<Rightarrow> 'a list" where
  "splice_from start xs =
     (if start < 0 then take (nat (max (int (length xs) + start) 0)) xs
      else take (nat (min start (int (length xs)))) xs)"

definition newEntry :: "regexp \<Rightarrow> string \<Rightarrow> string option \<Rightarrow> env \<Rightarrow> ClipboardEntry" where
  "newEntry rx c src io =
     \<lparr>idE = newId io, content = c, timestamp = now io, isPinned = False, sourceFile = src,
      lineCount = Suc (length (filter (\<lambda>ch. ch = CHR 0x0A) c)),
      contentType = detectContentType rx c\<rparr>"

text \<open>Lines 119 to 127 of addEntry: split by pin flag, cut the unpinned part, reassemble.\<close>

definition enforceLimit :: "int \<Rightarrow> ClipboardEntry list \<Rightarrow> ClipboardEntry list" where
  "enforceLimit mx es =
     (let pinnedEntries = filter isPinned es;
          unpinnedEntries = filter (\<lambda>e. \<not> isPinned e) es
      in pinnedEntries @
         (if int (length unpinnedEntries) > mx then splice_from mx unpinnedEntries
          else unpinnedEntries))"

fun findIndex :: "('a \<Rightarrow> bool) \<Rightarrow> 'a list \<Rightarrow> nat option" where
  "findIndex P [] = None"
| "findIndex P (x # xs) = (if P x then Some 0 else map_option Suc (findIndex P xs))"

text \<open>The comparator handed to \<^verbatim>\<open>sort\<close> in togglePin.\<close>

definition compareEntries :: "ClipboardEntry \<Rightarrow> ClipboardEntry \<Rightarrow> int" where
  "compareEntries a b =
     (if isPinned a \<and> \<not> isPinned b then - 1
      else if \<not> isPinned a \<and> isPinned b then 1
      else timestamp b - timestamp a)"

text \<open>
  \<^verbatim>\<open>Array.prototype.sort\<close> is stable, and for a consistent comparator its result is the one
  stable ordering of the input. Insertion from the right computes that ordering.
\<close>

fun insertSorted :: "('a \<Rightarrow> 'a \<Rightarrow> int) \<Rightarrow> 'a \<Rightarrow> 'a list \<Rightarrow> 'a list" where
  "insertSorted cmp x [] = [x]"
| "insertSorted cmp x (y # ys) =
     (if cmp x y \<le> 0 then x # y # ys else y # insertSorted cmp x ys)"

definition arraySort :: "('a \<Rightarrow> 'a \<Rightarrow> int) \<Rightarrow> 'a list \<Rightarrow> 'a list" where
  "arraySort cmp xs = foldr (insertSorted cmp) xs []"

definition flipPin :: "ClipboardEntry \<Rightarrow> ClipboardEntry" where
  "flipPin e = e\<lparr>isPinned := \<not> isPinned e\<rparr>"

text \<open>
  The list part of togglePin: \<^verbatim>\<open>find\<close> returns the first entry with the id, its flag is
  flipped in place, and the list is sorted.
\<close>

definition togglePin_entries :: "string \<Rightarrow> ClipboardEntry list \<Rightarrow> ClipboardEntry list" where
  "togglePin_entries i es =
     (case findIndex (\<lambda>e. idE e = i) es of
        None \<Rightarrow> es
      | Some k \<Rightarrow> arraySort compareEntries (es[k := flipPin (es ! k)]))"

text \<open>
  Line 217 computes the cutoff in IEEE doubles. On integers whose magnitude is at most
  \<open>2^53 - 1\<close> (\<open>safeInteger\<close>, the language's \<^verbatim>\<open>Number.MAX_SAFE_INTEGER\<close>) that arithmetic is
  exact and is the integer arithmetic written here; for larger products the code rounds
  and this definition does not. What is stated below about the value of the cutoff is
  stated at inputs in the exact range; the statements on the size limit and on the order
  of the list use only that the sweep removes entries, whatever the cutoff.
\<close>

definition safeInteger :: "int \<Rightarrow> bool" where
  "safeInteger n = (- 9007199254740991 \<le> n \<and> n \<le> 9007199254740991)"

definition cutoffTime :: "ClipboardManagerConfig \<Rightarrow> int \<Rightarrow> int" where
  "cutoffTime cfg t = t - autoCleanupDays cfg * 24 * 60 * 60 * 1000"

subsection \<open>Operations\<close>

definition getEntries :: "state \<Rightarrow> ClipboardEntry list" where
  "getEntries s = entries s"

definition getEntry :: "string \<Rightarrow> state \<Rightarrow> ClipboardEntry option" where
  "getEntry i s = find (\<lambda>e. idE e = i) (entries s)"

definition addEntry :: "regexp \<Rightarrow> string \<Rightarrow> string option \<Rightarrow> env \<Rightarrow> state \<Rightarrow> error option \<times> state" where
  "addEntry rx c src io s =
     (let s1 = s\<lparr>entries := enforceLimit (maxHistorySize (config s)) (newEntry rx c src io # entries s)\<rparr>
      in case persist (saveOk io) (entries s1) s1 of
           (Some err, s2) \<Rightarrow> (Some err, s2)
         | (None, s2) \<Rightarrow>
             (None,
              if enableNotifications (config s2)
              then emit (ShowInformationMessage (''Clipboard updated: '' @ getPreview (config s2) c))
                     (emit Fire s2)
              else emit Fire s2))"

text \<open>
  One polling tick. \<open>r\<close> is what \<^verbatim>\<open>readText\<close> gave (\<open>None\<close> when it rejected); everything
  thrown inside the tick is caught, so a tick has no error result.
\<close>

definition checkClipboard :: "regexp \<Rightarrow> string option \<Rightarrow> env \<Rightarrow> state \<Rightarrow> state" where
  "checkClipboard rx r io s =
     (case r of
        None \<Rightarrow> s
      | Some currentContent \<Rightarrow>
          if currentContent \<noteq> [] \<and> currentContent \<noteq> lastClipboardContent s
          then (let s1 = s\<lparr>lastClipboardContent := currentContent\<rparr>
                in if shouldExclude rx (config s1) currentContent then s1
                   else if length (entries s1) > 0 \<and> content (hd (entries s1)) = currentContent then s1
                   else snd (addEntry rx currentContent None io s1))
          else s)"

definition deleteEntry :: "string \<Rightarrow> bool \<Rightarrow> state \<Rightarrow> error option \<times> state" where
  "deleteEntry i ok s =
     (case findIndex (\<lambda>e. idE e = i) (entries s) of
        None \<Rightarrow> (None, s)
      | Some k \<Rightarrow>
          (let s1 = s\<lparr>entries := take k (entries s) @ drop (Suc k) (entries s)\<rparr>
           in case persist ok (entries s1) s1 of
                (Some err, s2) \<Rightarrow> (Some err, s2)
              | (None, s2) \<Rightarrow> (None, emit Fire s2)))"

definition togglePin :: "string \<Rightarrow> bool \<Rightarrow> state \<Rightarrow> error option \<times> state" where
  "togglePin i ok s =
     (case find (\<lambda>e. idE e = i) (entries s) of
        None \<Rightarrow> (None, s)
      | Some _ \<Rightarrow>
          (let s1 = s\<lparr>entries := togglePin_entries i (entries s)\<rparr>
           in case persist ok (entries s1) s1 of
                (Some err, s2) \<Rightarrow> (Some err, s2)
              | (None, s2) \<Rightarrow> (None, emit Fire s2)))"

definition clearHistory :: "bool \<Rightarrow> state \<Rightarrow> error option \<times> state" where
  "clearHistory ok s =
     (let s1 = s\<lparr>entries := []\<rparr>
      in if ok
         then (None, emit Fire (emit (Update None)
                 (s1\<lparr>globalState := clearHistory_storage (globalState s1)\<rparr>)))
         else (Some StorageError, s1))"

definition copyToClipboard :: "string \<Rightarrow> bool \<Rightarrow> state \<Rightarrow> error option \<times> state" where
  "copyToClipboard i ok s =
     (case find (\<lambda>e. idE e = i) (entries s) of
        None \<Rightarrow> (None, s)
      | Some entry \<Rightarrow>
          (let s1 = s\<lparr>lastClipboardContent := content entry\<rparr>
           in if ok
              then (None, emit (ShowInformationMessage ''Copied to clipboard'')
                            (emit (WriteText (content entry)) s1))
              else (Some ClipboardError, s1)))"

text \<open>
  The sweep does not await its save, so a rejected update is lost and the sweep itself
  never fails.
\<close>

definition cleanupOldEntries :: "int \<Rightarrow> bool \<Rightarrow> state \<Rightarrow> state" where
  "cleanupOldEntries t ok s =
     (let originalLength = length (entries s);
          s1 = s\<lparr>entries := filter (\<lambda>e. isPinned e \<or> timestamp e > cutoffTime (config s) t) (entries s)\<rparr>
      in if length (entries s1) < originalLength then snd (persist ok (entries s1) s1) else s1)"

definition initialize :: "int \<Rightarrow> bool \<Rightarrow> string option \<Rightarrow> state \<Rightarrow> error option \<times> state" where
  "initialize t ok r s =
     (let s1 = cleanupOldEntries t ok (s\<lparr>entries := loadHistory (globalState s)\<rparr>)
      in case r of
           None \<Rightarrow> (Some ClipboardError, s1)
         | Some c \<Rightarrow> (None, s1\<lparr>lastClipboardContent := c, monitoring := True\<rparr>))"

definition updateConfig :: "ClipboardManagerConfig \<Rightarrow> state \<Rightarrow> state" where
  "updateConfig cfg s = s\<lparr>config := cfg, monitoring := True\<rparr>"

subsection \<open>Runs of the engine\<close>

text \<open>
  A command is one call of the engine together with the host's answers. \<open>Restart\<close> is a
  new session: a fresh manager over the same store, then \<^verbatim>\<open>initialize()\<close>. Every section
  of the source that changes the list runs without an intervening \<^verbatim>\<open>await\<close>, so commands
  are atomic as far as the list is concerned.
\<close>

datatype command =
  Tick "string option" env
  | AddEntry string "string option" env
  | DeleteEntry string bool
  | TogglePin string bool
  | ClearHistory bool
  | CopyToClipboard string bool
  | UpdateConfig ClipboardManagerConfig
  | Restart ClipboardManagerConfig int bool "string option"

fun step :: "regexp \<Rightarrow> state \<Rightarrow> command \<Rightarrow> state" where
  "step rx s (Tick r io) = (if monitoring s then checkClipboard rx r io s else s)"
| "step rx s (AddEntry c src io) = snd (addEntry rx c src io s)"
| "step rx s (DeleteEntry i ok) = snd (deleteEntry i ok s)"
| "step rx s (TogglePin i ok) = snd (togglePin i ok s)"
| "step rx s (ClearHistory ok) = snd (clearHistory ok s)"
| "step rx s (CopyToClipboard i ok) = snd (copyToClipboard i ok s)"
| "step rx s (UpdateConfig cfg) = updateConfig cfg s"
| "step rx s (Restart cfg t ok r) =
     snd (initialize t ok r ((construct (globalState s) cfg)\<lparr>trace := trace s\<rparr>))"

definition exec :: "regexp \<Rightarrow> state \<Rightarrow> command list \<Rightarrow> state" where
  "exec rx s cs = foldl (step rx) s cs"

subsection \<open>Vocabulary of the properties\<close>

definition unpinnedCount :: "ClipboardEntry list \<Rightarrow> nat" where
  "unpinnedCount es = length (filter (\<lambda>e. \<not> isPinned e) es)"

definition withinLimit :: "state \<Rightarrow> bool" where
  "withinLimit s = (int (unpinnedCount (entries s)) \<le> maxHistorySize (config s))"

fun pinnedFirst :: "ClipboardEntry list \<Rightarrow> bool" where
  "pinnedFirst [] = True"
| "pinnedFirst (e # es) = (if isPinned e then pinnedFirst es else list_all (\<lambda>x. \<not> isPinned x) es)"

text \<open>The first two entries of the unpinned part, when there are two, differ in content.\<close>

fun firstTwoDistinct :: "ClipboardEntry list \<Rightarrow> bool" where
  "firstTwoDistinct (a # b # es) = (content a \<noteq> content b)"
| "firstTwoDistinct es = True"

definition unpinnedHeadDistinct :: "ClipboardEntry list \<Rightarrow> bool" where
  "unpinnedHeadDistinct es = firstTwoDistinct (filter (\<lambda>e. \<not> isPinned e) es)"

fun isTick :: "command \<Rightarrow> bool" where
  "isTick (Tick r io) = True"
| "isTick c = False"

definition orderedState :: "state \<Rightarrow> bool" where
  "orderedState s = (pinnedFirst (entries s) \<and> pinnedFirst (loadHistory (globalState s)))"

text \<open>
  The order the comparator describes: \<open>sortKey\<close> is smaller for a pinned entry, and among
  entries with the same flag for the later timestamp. \<open>inOrder\<close> allows equal keys next to
  each other, \<open>strictlyInOrder\<close> does not.
\<close>

definition sortKey :: "ClipboardEntry \<Rightarrow> bool \<times> int" where
  "sortKey e = (\<not> isPinned e, - timestamp e)"

definition inOrder :: "ClipboardEntry list \<Rightarrow> bool" where
  "inOrder es = sorted_wrt (\<lambda>a b. compareEntries a b \<le> 0) es"

definition strictlyInOrder :: "ClipboardEntry list \<Rightarrow> bool" where
  "strictlyInOrder es = sorted_wrt (\<lambda>a b. compareEntries a b < 0) es"

subsection \<open>Concrete inputs for the examples\<close>

text \<open>The defaults of getConfiguration in extension.ts.\<close>

definition defaultConfiguration :: ClipboardManagerConfig where
  "defaultConfiguration =
     \<lparr>maxHistorySize = 100, showTimestamp = True, enableNotifications = False,
      autoCleanupDays = 7, excludePatterns = [], monitoringInterval = 500, previewLength = 50\<rparr>"

definition plainEntry :: "string \<Rightarrow> string \<Rightarrow> int \<Rightarrow> bool \<Rightarrow> ClipboardEntry" where
  "plainEntry i c t p =
     \<lparr>idE = i, content = c, timestamp = t, isPinned = p, sourceFile = None, lineCount = 1,
      contentType = TextContent\<rparr>"

text \<open>An engine for the examples: their subjects match none of the patterns involved.\<close>

definition matchNothing :: regexp where
  "matchNothing p fl c = Some False"

definition hostAt :: "int \<Rightarrow> string \<Rightarrow> env" where
  "hostAt t i = \<lparr>now = t, newId = i, saveOk = True\<rparr>"

definition sampleState :: state where
  "sampleState =
     (construct Map.empty defaultConfiguration)
       \<lparr>entries := [plainEntry ''2-b'' ''world'' 2 True, plainEntry ''1-a'' ''hello'' 1 False],
        lastClipboardContent := ''world'', monitoring := True\<rparr>"

definition smallConfiguration :: ClipboardManagerConfig where
  "smallConfiguration = defaultConfiguration\<lparr>maxHistorySize := 1\<rparr>"

text \<open>Two captures at a limit of one; the first is pinned before the second and unpinned after it.\<close>

definition overflowRun :: "command list" where
  "overflowRun =
     [Restart smallConfiguration 0 True (Some []),
      Tick (Some ''a'') (hostAt 1 ''1-a''),
      TogglePin ''1-a'' True,
      Tick (Some ''b'') (hostAt 2 ''2-b''),
      TogglePin ''1-a'' True]"

text \<open>
  ``A'' is captured, then ``X''; ``X'' is pinned; then the clipboard holds ``A'' again. The
  pinned ``X'' is the most recent capture when ``A'' is read the second time.
\<close>

definition pinnedHeadRun :: "command list" where
  "pinnedHeadRun =
     [Restart defaultConfiguration 0 True (Some []),
      Tick (Some ''A'') (hostAt 1 ''1-a''),
      Tick (Some ''X'') (hostAt 2 ''2-x''),
      TogglePin ''2-x'' True,
      Tick (Some ''A'') (hostAt 3 ''3-a'')]"

text \<open>
  ``X'' is captured and pinned, ``A'' is captured, ``X'' is copied back from the history, and
  the clipboard then holds ``A'' again. Here ``A'' is the most recent capture when it is read
  the second time.
\<close>

definition stalePinnedHeadRun :: "command list" where
  "stalePinnedHeadRun =
     [Restart defaultConfiguration 0 True (Some []),
      Tick (Some ''X'') (hostAt 1 ''1-x''),
      TogglePin ''1-x'' True,
      Tick (Some ''A'') (hostAt 2 ''2-a''),
      CopyToClipboard ''1-x'' True,
      Tick (Some ''A'') (hostAt 3 ''3-a'')]"

text \<open>The head repeats an older entry, and the last-observed text is that of the middle entry.\<close>

definition recopiedState :: state where
  "recopiedState =
     (construct Map.empty defaultConfiguration)
       \<lparr>entries := [plainEntry ''3-c'' ''beta'' 3 False, plainEntry ''2-b'' ''alpha'' 2 False,
                    plainEntry ''1-a'' ''beta'' 1 False],
        lastClipboardContent := ''alpha'', monitoring := True\<rparr>"

definition tickRun :: "command list" where
  "tickRun =
     [Tick (Some ''gamma'') (hostAt 4 ''4-d''),
      Tick (Some ''gamma'') (hostAt 5 ''5-e''),
      Tick (Some ''beta'') (hostAt 6 ''6-f'')]"

definition weekMs :: int where
  "weekMs = 7 * 24 * 60 * 60 * 1000"

definition boundaryEntry :: ClipboardEntry where
  "boundaryEntry = plainEntry ''1-a'' ''hello'' 1000 False"

text \<open>A manager not yet initialized, over a store that holds the one entry made at 1000.\<close>

definition boundaryStart :: state where
  "boundaryStart = construct (saveHistory [boundaryEntry] Map.empty) defaultConfiguration"

text \<open>Captures made while the clock was set back: the entry stamped 10 is the oldest.\<close>

definition skewedEntries :: "ClipboardEntry list" where
  "skewedEntries =
     [plainEntry ''6-c'' ''three'' 6 False, plainEntry ''5-b'' ''two'' 5 False,
      plainEntry ''10-a'' ''one'' 10 False]"

text \<open>Two entries added within the same millisecond.\<close>

definition sameInstantEntries :: "ClipboardEntry list" where
  "sameInstantEntries = [plainEntry ''5-a'' ''one'' 5 False, plainEntry ''5-b'' ''two'' 5 False]"

definition orderedEntries :: "ClipboardEntry list" where
  "orderedEntries =
     [plainEntry ''4-d'' ''four'' 4 True, plainEntry ''3-c'' ''three'' 3 False,
      plainEntry ''2-b'' ''two'' 2 False, plainEntry ''1-a'' ''one'' 1 False]"

section \<open>Basic facts about the operations\<close>

lemma findIndex_None_iff: "findIndex P xs = None \<longleftrightarrow> (\<forall>x\<in>set xs. \<not> P x)"
  by (induction xs) auto

lemma findIndex_Some_bound: "findIndex P xs = Some k \<Longrightarrow> k < length xs \<and> P (xs ! k)"
  by (induction xs arbitrary: k) (auto split: if_splits)

lemma entries_emit: "entries (emit e s) = entries s"
  by (simp add: emit_def)

lemma entries_persist: "entries (snd (persist ok es s)) = entries s"
  by (simp add: persist_def emit_def)

lemma config_persist: "config (snd (persist ok es s)) = config s"
  by (simp add: persist_def emit_def)

lemma entries_addEntry:
  "entries (snd (addEntry rx c src io s)) =
     enforceLimit (maxHistorySize (config s)) (newEntry rx c src io # entries s)"
  by (simp add: addEntry_def persist_def emit_def Let_def)

lemma set_enforceLimit: "set (enforceLimit mx es) \<subseteq> set es"
  by (auto simp: enforceLimit_def splice_from_def Let_def dest: in_set_takeD)

lemma filter_take_same: "\<forall>x\<in>set xs. P x \<Longrightarrow> filter P (take n xs) = take n xs"
  by (metis filter_True in_set_takeD)

lemma filter_take_none: "\<forall>x\<in>set xs. \<not> P x \<Longrightarrow> filter P (take n xs) = []"
  by (metis filter_False in_set_takeD)

lemma unpinned_of_pinned: "filter (\<lambda>e. \<not> isPinned e) (filter isPinned es) = []"
  by (induction es) auto

lemma pinned_of_unpinned: "filter isPinned (filter (\<lambda>e. \<not> isPinned e) es) = []"
  by (induction es) auto

lemma splice_from_take: "\<exists>n. splice_from mx xs = take n xs"
  by (auto simp: splice_from_def)

lemma unpinned_enforceLimit:
  "filter (\<lambda>e. \<not> isPinned e) (enforceLimit mx es) =
     (if int (unpinnedCount es) > mx then splice_from mx (filter (\<lambda>e. \<not> isPinned e) es)
      else filter (\<lambda>e. \<not> isPinned e) es)"
proof -
  obtain n where n: "splice_from mx (filter (\<lambda>e. \<not> isPinned e) es) = take n (filter (\<lambda>e. \<not> isPinned e) es)"
    using splice_from_take by blast
  have "filter (\<lambda>e. \<not> isPinned e) (take n (filter (\<lambda>e. \<not> isPinned e) es)) = take n (filter (\<lambda>e. \<not> isPinned e) es)"
    by (rule filter_take_same) simp
  with n show ?thesis
    by (simp add: enforceLimit_def Let_def unpinnedCount_def unpinned_of_pinned)
qed

lemma pinned_enforceLimit: "filter isPinned (enforceLimit mx es) = filter isPinned es"
proof -
  obtain n where n: "splice_from mx (filter (\<lambda>e. \<not> isPinned e) es) = take n (filter (\<lambda>e. \<not> isPinned e) es)"
    using splice_from_take by blast
  have "filter isPinned (take n (filter (\<lambda>e. \<not> isPinned e) es)) = []"
    by (rule filter_take_none) simp
  with n show ?thesis
    by (simp add: enforceLimit_def Let_def pinned_of_unpinned)
qed

lemma unpinnedCount_enforceLimit:
  "0 \<le> mx \<Longrightarrow> int (unpinnedCount (enforceLimit mx es)) \<le> mx"
  by (simp add: unpinnedCount_def unpinned_enforceLimit) (simp add: splice_from_def)

lemma unpinnedCount_enforceLimit_le:
  "unpinnedCount (enforceLimit mx es) \<le> unpinnedCount es"
  by (simp add: unpinnedCount_def unpinned_enforceLimit) (auto simp: splice_from_def)

lemma mset_insertSorted: "mset (insertSorted cmp x ys) = add_mset x (mset ys)"
  by (induction ys) auto

lemma mset_arraySort: "mset (arraySort cmp xs) = mset xs"
  by (induction xs) (auto simp: arraySort_def mset_insertSorted)

lemma unpinnedCount_mset: "mset xs = mset ys \<Longrightarrow> unpinnedCount xs = unpinnedCount ys"
  unfolding unpinnedCount_def by (metis mset_filter size_mset)

lemma unpinnedCount_update:
  "k < length es \<Longrightarrow> unpinnedCount (es[k := flipPin (es ! k)]) \<le> Suc (unpinnedCount es)"
proof (induction es arbitrary: k)
  case Nil then show ?case by simp
next
  case (Cons e es)
  then show ?case
    by (cases k) (auto simp: unpinnedCount_def flipPin_def)
qed

lemma unpinnedCount_togglePin_entries:
  "unpinnedCount (togglePin_entries i es) \<le> Suc (unpinnedCount es)"
proof (cases "findIndex (\<lambda>e. idE e = i) es")
  case None
  then show ?thesis by (simp add: togglePin_entries_def)
next
  case (Some k)
  then have "k < length es" by (simp add: findIndex_Some_bound)
  then have "unpinnedCount (es[k := flipPin (es ! k)]) \<le> Suc (unpinnedCount es)"
    by (rule unpinnedCount_update)
  moreover have "unpinnedCount (arraySort compareEntries (es[k := flipPin (es ! k)])) =
      unpinnedCount (es[k := flipPin (es ! k)])"
    by (rule unpinnedCount_mset) (rule mset_arraySort)
  ultimately show ?thesis using Some by (simp add: togglePin_entries_def)
qed

lemma unpinnedCount_remove: "unpinnedCount (take k es @ drop (Suc k) es) \<le> unpinnedCount es"
proof -
  have "unpinnedCount (take k es @ drop (Suc k) es) \<le> unpinnedCount (take k es @ drop k es)"
    unfolding unpinnedCount_def
    by (cases "k < length es") (auto simp: Cons_nth_drop_Suc[symmetric])
  then show ?thesis by simp
qed

lemma unpinnedCount_filter: "unpinnedCount (filter P es) \<le> unpinnedCount es"
  unfolding unpinnedCount_def by (induction es) auto

lemma entries_deleteEntry:
  "entries (snd (deleteEntry i ok s)) =
     (case findIndex (\<lambda>e. idE e = i) (entries s) of None \<Rightarrow> entries s
      | Some k \<Rightarrow> take k (entries s) @ drop (Suc k) (entries s))"
  by (simp add: deleteEntry_def persist_def emit_def Let_def split: option.splits)

lemma find_findIndex: "(find P xs = None) = (findIndex P xs = None)"
  by (auto simp: find_None_iff findIndex_None_iff)

lemma entries_togglePin:
  "entries (snd (togglePin i ok s)) = togglePin_entries i (entries s)"
proof (cases "find (\<lambda>e. idE e = i) (entries s)")
  case None
  then have "findIndex (\<lambda>e. idE e = i) (entries s) = None" by (simp add: find_findIndex)
  with None show ?thesis by (simp add: togglePin_def togglePin_entries_def)
next
  case (Some a)
  then show ?thesis by (simp add: togglePin_def persist_def emit_def Let_def)
qed

lemma entries_clearHistory: "entries (snd (clearHistory ok s)) = []"
  by (simp add: clearHistory_def emit_def Let_def)

lemma entries_copyToClipboard: "entries (snd (copyToClipboard i ok s)) = entries s"
  by (simp add: copyToClipboard_def emit_def Let_def split: option.splits)

lemma entries_cleanupOldEntries:
  "entries (cleanupOldEntries t ok s) =
     filter (\<lambda>e. isPinned e \<or> timestamp e > cutoffTime (config s) t) (entries s)"
  by (simp add: cleanupOldEntries_def Let_def entries_persist)

lemma entries_checkClipboard:
  "entries (checkClipboard rx r io s) = entries s \<or>
   (\<exists>c. r = Some c \<and> entries (checkClipboard rx r io s) =
      enforceLimit (maxHistorySize (config s)) (newEntry rx c None io # entries s))"
  by (auto simp: checkClipboard_def Let_def entries_addEntry split: option.splits)

lemma config_addEntry: "config (snd (addEntry rx c src io s)) = config s"
  by (simp add: addEntry_def persist_def emit_def Let_def)

lemma config_checkClipboard: "config (checkClipboard rx r io s) = config s"
  by (simp add: checkClipboard_def Let_def config_addEntry split: option.splits)

lemma config_deleteEntry: "config (snd (deleteEntry i ok s)) = config s"
  by (simp add: deleteEntry_def persist_def emit_def Let_def split: option.splits)

lemma config_togglePin: "config (snd (togglePin i ok s)) = config s"
  by (simp add: togglePin_def persist_def emit_def Let_def split: option.splits)

lemma config_clearHistory: "config (snd (clearHistory ok s)) = config s"
  by (simp add: clearHistory_def emit_def Let_def)

lemma config_cleanupOldEntries: "config (cleanupOldEntries t ok s) = config s"
  by (simp add: cleanupOldEntries_def Let_def config_persist)

lemma pinnedFirst_sorted_wrt:
  "pinnedFirst es \<longleftrightarrow> sorted_wrt (\<lambda>a b. isPinned b \<longrightarrow> isPinned a) es"
proof (induction es)
  case Nil
  then show ?case by simp
next
  case (Cons e es)
  have "list_all (\<lambda>x. \<not> isPinned x) es \<Longrightarrow> sorted_wrt (\<lambda>a b. isPinned b \<longrightarrow> isPinned a) es"
    by (induction es) (auto simp: list_all_iff)
  with Cons show ?case by (auto simp: list_all_iff)
qed

lemma pinnedFirst_unpinned: "list_all (\<lambda>e. \<not> isPinned e) us \<Longrightarrow> pinnedFirst us"
  by (cases us) simp_all

lemma pinnedFirst_append:
  "list_all isPinned ps \<Longrightarrow> list_all (\<lambda>e. \<not> isPinned e) us \<Longrightarrow> pinnedFirst (ps @ us)"
  by (induction ps) (simp_all add: pinnedFirst_unpinned)

lemma pinnedFirst_enforceLimit: "pinnedFirst (enforceLimit mx es)"
proof -
  obtain n where n: "splice_from mx (filter (\<lambda>e. \<not> isPinned e) es) = take n (filter (\<lambda>e. \<not> isPinned e) es)"
    using splice_from_take by blast
  have p: "list_all isPinned (filter isPinned es)"
    by (simp add: list_all_iff)
  have u: "list_all (\<lambda>e. \<not> isPinned e) (filter (\<lambda>e. \<not> isPinned e) es)"
    by (simp add: list_all_iff)
  have "list_all (\<lambda>e. \<not> isPinned e) (take n (filter (\<lambda>e. \<not> isPinned e) es))"
    unfolding list_all_iff by (metis (mono_tags, lifting) in_set_takeD mem_Collect_eq set_filter)
  with n p u show ?thesis
    by (simp add: enforceLimit_def Let_def pinnedFirst_append)
qed

lemma pinnedFirst_insertSorted:
  "pinnedFirst ys \<Longrightarrow> pinnedFirst (insertSorted compareEntries x ys)"
proof (induction ys)
  case Nil
  then show ?case by simp
next
  case (Cons y ys)
  show ?case
  proof (cases "compareEntries x y \<le> 0")
    case True
    with Cons.prems show ?thesis
      by (auto simp: compareEntries_def list_all_iff split: if_splits)
  next
    case False
    then have "\<not> (isPinned x \<and> \<not> isPinned y)"
      by (auto simp: compareEntries_def split: if_splits)
    moreover have "set (insertSorted compareEntries x ys) = insert x (set ys)"
      by (metis mset_insertSorted set_mset_add_mset_insert set_mset_mset)
    ultimately show ?thesis using False Cons
      by (auto simp: list_all_iff split: if_splits)
  qed
qed

lemma pinnedFirst_arraySort: "pinnedFirst (arraySort compareEntries xs)"
  by (induction xs) (simp_all add: arraySort_def pinnedFirst_insertSorted)

lemma pinnedFirst_togglePin_entries: "pinnedFirst es \<Longrightarrow> pinnedFirst (togglePin_entries i es)"
  by (simp add: togglePin_entries_def pinnedFirst_arraySort split: option.splits)

lemma sorted_wrt_remove_nth:
  assumes "sorted_wrt R es"
  shows "sorted_wrt R (take k es @ drop (Suc k) es)"
proof -
  from assms have whole: "sorted_wrt R (take k es @ drop k es)"
    by simp
  have sub: "set (drop (Suc k) es) \<subseteq> set (drop k es)"
    by (rule set_drop_subset_set_drop) simp
  from whole have cross: "\<forall>x\<in>set (take k es). \<forall>y\<in>set (drop k es). R x y"
    unfolding sorted_wrt_append by blast
  from assms have "sorted_wrt R (take k es)" and "sorted_wrt R (drop (Suc k) es)"
    by (simp_all add: sorted_wrt_take sorted_wrt_drop)
  with cross sub show ?thesis
    unfolding sorted_wrt_append by blast
qed

lemma pinnedFirst_remove: "pinnedFirst es \<Longrightarrow> pinnedFirst (take k es @ drop (Suc k) es)"
  unfolding pinnedFirst_sorted_wrt by (rule sorted_wrt_remove_nth)

lemma pinnedFirst_filter: "pinnedFirst es \<Longrightarrow> pinnedFirst (filter P es)"
  unfolding pinnedFirst_sorted_wrt by (rule sorted_wrt_filter)

lemma loadHistory_saveHistory: "loadHistory (saveHistory es m) = es"
  by (simp add: loadHistory_def saveHistory_def)

lemma loadHistory_clearHistory_storage: "loadHistory (clearHistory_storage m) = []"
  by (simp add: loadHistory_def clearHistory_storage_def)

lemma stored_persist:
  "loadHistory (globalState (snd (persist ok es s))) = (if ok then es else loadHistory (globalState s))"
  by (simp add: persist_def emit_def loadHistory_saveHistory)

lemma ordered_persist:
  "pinnedFirst es \<Longrightarrow> pinnedFirst (loadHistory (globalState s)) \<Longrightarrow>
   pinnedFirst (loadHistory (globalState (snd (persist ok es s))))"
  by (simp add: stored_persist)

lemma ordered_addEntry: "orderedState s \<Longrightarrow> orderedState (snd (addEntry rx c src io s))"
  unfolding orderedState_def
  by (auto simp: addEntry_def persist_def emit_def Let_def loadHistory_saveHistory pinnedFirst_enforceLimit)

lemma ordered_checkClipboard: "orderedState s \<Longrightarrow> orderedState (checkClipboard rx r io s)"
  using ordered_addEntry [of "s\<lparr>lastClipboardContent := the r\<rparr>" rx "the r" None io]
  by (auto simp: checkClipboard_def Let_def orderedState_def split: option.splits)

lemma ordered_deleteEntry: "orderedState s \<Longrightarrow> orderedState (snd (deleteEntry i ok s))"
  unfolding orderedState_def
  by (auto simp: deleteEntry_def persist_def emit_def Let_def loadHistory_saveHistory pinnedFirst_remove
      split: option.splits)

lemma ordered_togglePin: "orderedState s \<Longrightarrow> orderedState (snd (togglePin i ok s))"
  unfolding orderedState_def
  by (auto simp: togglePin_def persist_def emit_def Let_def loadHistory_saveHistory
      pinnedFirst_togglePin_entries split: option.splits)

lemma ordered_clearHistory: "orderedState s \<Longrightarrow> orderedState (snd (clearHistory ok s))"
  unfolding orderedState_def
  by (auto simp: clearHistory_def emit_def Let_def loadHistory_clearHistory_storage)

lemma ordered_copyToClipboard: "orderedState s \<Longrightarrow> orderedState (snd (copyToClipboard i ok s))"
  unfolding orderedState_def
  by (auto simp: copyToClipboard_def emit_def Let_def split: option.splits)

lemma ordered_cleanupOldEntries: "orderedState s \<Longrightarrow> orderedState (cleanupOldEntries t ok s)"
  unfolding orderedState_def
  by (auto simp: cleanupOldEntries_def persist_def emit_def Let_def loadHistory_saveHistory
      pinnedFirst_filter)

lemma ordered_initialize:
  "pinnedFirst (loadHistory (globalState s)) \<Longrightarrow> orderedState (snd (initialize t ok r s))"
proof -
  assume a: "pinnedFirst (loadHistory (globalState s))"
  then have "orderedState (s\<lparr>entries := loadHistory (globalState s)\<rparr>)"
    by (simp add: orderedState_def)
  then have "orderedState (cleanupOldEntries t ok (s\<lparr>entries := loadHistory (globalState s)\<rparr>))"
    by (rule ordered_cleanupOldEntries)
  then show ?thesis
    by (cases r) (simp_all add: initialize_def Let_def orderedState_def)
qed

lemma ordered_step: "orderedState s \<Longrightarrow> orderedState (step rx s cmd)"
proof (cases cmd)
  case (Restart cfg t ok r)
  assume "orderedState s"
  then have "pinnedFirst (loadHistory (globalState ((construct (globalState s) cfg)\<lparr>trace := trace s\<rparr>)))"
    by (simp add: orderedState_def construct_def)
  then show ?thesis using Restart by (simp add: ordered_initialize)
next
  case (UpdateConfig cfg)
  assume "orderedState s"
  then show ?thesis using UpdateConfig by (simp add: updateConfig_def orderedState_def)
qed (simp_all add: ordered_checkClipboard ordered_addEntry ordered_deleteEntry ordered_togglePin
      ordered_clearHistory ordered_copyToClipboard)

lemma ordered_exec: "orderedState s \<Longrightarrow> orderedState (exec rx s cs)"
  unfolding exec_def by (induction cs arbitrary: s) (simp_all add: ordered_step)

lemma count_partition:
  "length (filter P (filter Q es @ filter (\<lambda>e. \<not> Q e) es)) = length (filter P es)"
  by (induction es) auto

lemma enforceLimit_roomy:
  "int (unpinnedCount es) \<le> mx \<Longrightarrow>
   enforceLimit mx es = filter isPinned es @ filter (\<lambda>e. \<not> isPinned e) es"
  by (simp add: enforceLimit_def Let_def unpinnedCount_def)

lemma checkClipboard_cases:
  "entries (checkClipboard rx r io s) = entries s \<or>
   (\<exists>c. r = Some c \<and> c \<noteq> [] \<and> (entries s = [] \<or> content (hd (entries s)) \<noteq> c) \<and>
      entries (checkClipboard rx r io s) =
        enforceLimit (maxHistorySize (config s)) (newEntry rx c None io # entries s))"
  by (auto simp: checkClipboard_def Let_def entries_addEntry split: option.splits)

lemma enforceLimit_unpinned_take:
  assumes "list_all (\<lambda>e. \<not> isPinned e) es"
  shows "\<exists>n. enforceLimit mx es = take n es"
proof -
  from assms have p: "filter isPinned es = []" and u: "filter (\<lambda>e. \<not> isPinned e) es = es"
    by (simp_all add: list_all_iff filter_empty_conv filter_id_conv)
  obtain n where n: "splice_from mx es = take n es"
    using splice_from_take [of mx es] by blast
  have "enforceLimit mx es = take n es \<or> enforceLimit mx es = take (length es) es"
    using n by (simp add: enforceLimit_def Let_def p u)
  then show ?thesis by blast
qed

lemma firstTwoDistinct_take: "firstTwoDistinct es \<Longrightarrow> firstTwoDistinct (take n es)"
proof (cases es)
  case Nil
  then show ?thesis by simp
next
  case outer: (Cons a rest)
  assume two: "firstTwoDistinct es"
  show ?thesis
  proof (cases rest)
    case Nil
    with outer show ?thesis by (cases n) simp_all
  next
    case (Cons b more)
    with outer two show ?thesis
      by (cases n; cases "n - 1") (simp_all add: take_Cons')
  qed
qed

lemma list_all_take: "list_all P es \<Longrightarrow> list_all P (take n es)"
  unfolding list_all_iff by (blast dest: in_set_takeD)

lemma tick_keeps_head_distinct:
  assumes none: "list_all (\<lambda>e. \<not> isPinned e) (entries s)"
    and dist: "unpinnedHeadDistinct (entries s)"
  shows "unpinnedHeadDistinct (entries (checkClipboard rx r io s)) \<and>
         list_all (\<lambda>e. \<not> isPinned e) (entries (checkClipboard rx r io s))"
proof -
  let ?after = "entries (checkClipboard rx r io s)"
  from checkClipboard_cases [of rx r io s] show ?thesis
  proof
    assume "?after = entries s"
    with none dist show ?thesis by simp
  next
    assume "\<exists>c. r = Some c \<and> c \<noteq> [] \<and> (entries s = [] \<or> content (hd (entries s)) \<noteq> c) \<and>
      ?after = enforceLimit (maxHistorySize (config s)) (newEntry rx c None io # entries s)"
    then obtain c where c: "entries s = [] \<or> content (hd (entries s)) \<noteq> c"
      and after: "?after = enforceLimit (maxHistorySize (config s)) (newEntry rx c None io # entries s)"
      by blast
    let ?all = "newEntry rx c None io # entries s"
    from none have all_un: "list_all (\<lambda>e. \<not> isPinned e) ?all"
      by (simp add: newEntry_def)
    from c have two: "firstTwoDistinct ?all"
      by (cases "entries s") (auto simp: newEntry_def)
    from enforceLimit_unpinned_take [OF all_un] after obtain n where n: "?after = take n ?all"
      by metis
    from all_un have un: "list_all (\<lambda>e. \<not> isPinned e) (take n ?all)"
      by (rule list_all_take)
    then have "filter (\<lambda>e. \<not> isPinned e) (take n ?all) = take n ?all"
      by (simp add: list_all_iff filter_id_conv)
    moreover from two have "firstTwoDistinct (take n ?all)"
      by (rule firstTwoDistinct_take)
    ultimately have "unpinnedHeadDistinct (take n ?all)"
      by (simp add: unpinnedHeadDistinct_def)
    with un n show ?thesis by simp
  qed
qed

lemma ticks_keep_head_distinct:
  "list_all (\<lambda>e. \<not> isPinned e) (entries s) \<Longrightarrow> unpinnedHeadDistinct (entries s) \<Longrightarrow>
   list_all isTick cs \<Longrightarrow>
   unpinnedHeadDistinct (entries (exec rx s cs)) \<and>
   list_all (\<lambda>e. \<not> isPinned e) (entries (exec rx s cs))"
proof (induction cs arbitrary: s)
  case Nil
  then show ?case by (simp add: exec_def)
next
  case (Cons c cs)
  from Cons.prems(3) obtain r io where c: "c = Tick r io"
    by (cases c) simp_all
  from Cons.prems(1,2) have "unpinnedHeadDistinct (entries (step rx s c)) \<and>
      list_all (\<lambda>e. \<not> isPinned e) (entries (step rx s c))"
    unfolding c using tick_keeps_head_distinct [of s rx r io] by simp
  moreover from Cons.prems(3) have "list_all isTick cs" by simp
  ultimately have "unpinnedHeadDistinct (entries (exec rx (step rx s c) cs)) \<and>
      list_all (\<lambda>e. \<not> isPinned e) (entries (exec rx (step rx s c) cs))"
    using Cons.IH by blast
  then show ?case by (simp add: exec_def)
qed


section \<open>Facts about the sort of togglePin\<close>

lemma compareEntries_le: "compareEntries a b \<le> 0 \<longleftrightarrow> sortKey a \<le> sortKey b"
  by (auto simp: compareEntries_def sortKey_def le_bool_def less_bool_def)

lemma compareEntries_less: "compareEntries a b < 0 \<longleftrightarrow> sortKey a < sortKey b"
  by (auto simp: compareEntries_def sortKey_def le_bool_def less_bool_def)

lemma insertSorted_insort_key: "insertSorted compareEntries x ys = insort_key sortKey x ys"
  by (induction ys) (simp_all add: compareEntries_le)

lemma arraySort_sort_key: "arraySort compareEntries xs = sort_key sortKey xs"
  by (induction xs) (simp_all add: arraySort_def insertSorted_insort_key)

lemma inOrder_sorted: "inOrder es \<longleftrightarrow> sorted (map sortKey es)"
  by (simp add: inOrder_def compareEntries_le sorted_map)

lemma strictlyInOrder_sorted: "strictlyInOrder es \<longleftrightarrow> sorted (map sortKey es) \<and> distinct (map sortKey es)"
  unfolding strictlyInOrder_def compareEntries_less sorted_map
  by (induction es) (auto simp: less_le)

lemma insort_key_split: "\<exists>ys zs. insort_key f x xs = ys @ x # zs \<and> ys @ zs = xs"
proof (induction xs)
  case Nil
  then show ?case by simp
next
  case (Cons y xs)
  show ?case
  proof (cases "f x \<le> f y")
    case True
    then have "insort_key f x (y # xs) = [] @ x # (y # xs) \<and> [] @ (y # xs) = y # xs" by simp
    then show ?thesis by blast
  next
    case False
    from Cons obtain ys zs where "insort_key f x xs = ys @ x # zs" "ys @ zs = xs" by blast
    with False have "insort_key f x (y # xs) = (y # ys) @ x # zs \<and> (y # ys) @ zs = y # xs" by simp
    then show ?thesis by blast
  qed
qed

lemma insort_key_front:
  assumes "\<forall>y\<in>set (ys @ zs). f a \<le> f y"
  shows "\<exists>ys' zs'. insort_key f a (ys @ x # zs) = ys' @ x # zs' \<and> ys' @ zs' = a # ys @ zs"
proof (cases ys)
  case (Cons y ys1)
  with assms have "insort_key f a (ys @ x # zs) = (a # ys) @ x # zs \<and> (a # ys) @ zs = a # ys @ zs"
    by simp
  then show ?thesis by blast
next
  case Nil
  show ?thesis
  proof (cases "f a \<le> f x")
    case True
    with Nil have "insort_key f a (ys @ x # zs) = [a] @ x # zs \<and> [a] @ zs = a # ys @ zs" by simp
    then show ?thesis by blast
  next
    case False
    from assms Nil have "insort_key f a zs = a # zs" by (cases zs) simp_all
    with False Nil have "insort_key f a (ys @ x # zs) = [] @ x # (a # zs) \<and> [] @ (a # zs) = a # ys @ zs"
      by simp
    then show ?thesis by blast
  qed
qed

lemma foldr_insort_key_split:
  assumes "sorted (map f (as @ rest))" and "L = ys @ x # zs" and "ys @ zs = rest"
  shows "\<exists>ys' zs'. foldr (insort_key f) as L = ys' @ x # zs' \<and> ys' @ zs' = as @ rest"
  using assms
proof (induction as)
  case Nil
  then show ?case by auto
next
  case (Cons a as)
  then have "sorted (map f (as @ rest))" by simp
  with Cons obtain ys1 zs1 where
    s: "foldr (insort_key f) as L = ys1 @ x # zs1" "ys1 @ zs1 = as @ rest"
    by blast
  from Cons.prems(1) have "\<forall>y\<in>set (as @ rest). f a \<le> f y" by auto
  with s(2) have "\<forall>y\<in>set (ys1 @ zs1). f a \<le> f y" by simp
  from insort_key_front [OF this, of x] obtain ys' zs' where
    "insort_key f a (ys1 @ x # zs1) = ys' @ x # zs'" "ys' @ zs' = a # ys1 @ zs1" by blast
  with s have "foldr (insort_key f) (a # as) L = ys' @ x # zs' \<and> ys' @ zs' = (a # as) @ rest"
    by simp
  then show ?case by blast
qed

lemma sort_key_append: "sort_key f (as @ ys) = foldr (insort_key f) as (sort_key f ys)"
  by (induction as) simp_all

lemma sort_key_one_moved:
  assumes "sorted (map f (as @ bs))"
  shows "\<exists>ys zs. sort_key f (as @ x # bs) = ys @ x # zs \<and> ys @ zs = as @ bs"
proof -
  from assms have "sorted (map f bs)" by (simp add: sorted_append)
  then have same: "sort_key f bs = bs" by (rule sort_key_id_if_sorted)
  have "sort_key f (as @ x # bs) = foldr (insort_key f) as (sort_key f (x # bs))"
    by (rule sort_key_append)
  also have "sort_key f (x # bs) = insort_key f x (sort_key f bs)"
    by simp
  also have "sort_key f bs = bs"
    by (rule same)
  finally have whole: "sort_key f (as @ x # bs) = foldr (insort_key f) as (insort_key f x bs)" .
  obtain ys zs where split: "insort_key f x bs = ys @ x # zs" "ys @ zs = bs"
    using insort_key_split [of f x bs] by blast
  from foldr_insort_key_split [OF assms split] show ?thesis
    by (simp only: whole)
qed


lemma find_position:
  "find P es = Some e \<Longrightarrow>
   \<exists>k. findIndex P es = Some k \<and> k < length es \<and> es ! k = e \<and>
       take k es @ drop (Suc k) es = remove1 e es"
proof (induction es)
  case Nil
  then show ?case by simp
next
  case (Cons a es)
  show ?case
  proof (cases "P a")
    case True
    with Cons.prems have "e = a" by simp
    with True have "findIndex P (a # es) = Some 0 \<and> 0 < length (a # es) \<and> (a # es) ! 0 = e \<and>
        take 0 (a # es) @ drop (Suc 0) (a # es) = remove1 e (a # es)"
      by simp
    then show ?thesis by blast
  next
    case False
    with Cons.prems have f: "find P es = Some e" by simp
    then have "P e" by (auto simp: find_Some_iff)
    with False have ne: "e \<noteq> a" by auto
    from Cons.IH [OF f] obtain k where
      k: "findIndex P es = Some k" "k < length es" "es ! k = e"
         "take k es @ drop (Suc k) es = remove1 e es"
      by blast
    with False ne have "findIndex P (a # es) = Some (Suc k) \<and> Suc k < length (a # es) \<and>
        (a # es) ! Suc k = e \<and>
        take (Suc k) (a # es) @ drop (Suc (Suc k)) (a # es) = remove1 e (a # es)"
      by simp
    then show ?thesis by blast
  qed
qed

lemma remove1_inOrder: "inOrder es \<Longrightarrow> sorted (map sortKey (remove1 e es))"
  by (simp add: inOrder_sorted sorted_map_remove1)

lemma flipPin_flipPin: "flipPin (flipPin e) = e"
  by (simp add: flipPin_def)

lemma idE_flipPin: "idE (flipPin e) = idE e"
  by (simp add: flipPin_def)

lemma togglePin_entries_found:
  assumes "find (\<lambda>x. idE x = i) es = Some e"
  shows "\<exists>zs. togglePin_entries i es = sort_key sortKey zs \<and>
              mset zs = add_mset (flipPin e) (mset (remove1 e es))"
proof -
  from find_position [OF assms] obtain k where
    k: "findIndex (\<lambda>x. idE x = i) es = Some k" "k < length es" "es ! k = e"
       "take k es @ drop (Suc k) es = remove1 e es"
    by blast
  from k(2,3) have upd: "es[k := flipPin (es ! k)] = take k es @ flipPin e # drop (Suc k) es"
    by (simp add: upd_conv_take_nth_drop)
  with k(1) have "togglePin_entries i es = sort_key sortKey (take k es @ flipPin e # drop (Suc k) es)"
    by (simp add: togglePin_entries_def arraySort_sort_key)
  moreover have "mset (take k es @ flipPin e # drop (Suc k) es) =
      add_mset (flipPin e) (mset (take k es @ drop (Suc k) es))"
    by simp
  ultimately show ?thesis
    unfolding k(4) by blast
qed

lemma filter_key_singleton:
  "distinct (map f xs) \<Longrightarrow> k \<in> set xs \<Longrightarrow> filter (\<lambda>x. f k = f x) xs = [k]"
proof (induction xs)
  case Nil
  then show ?case by simp
next
  case (Cons a xs)
  show ?case
  proof (cases "k = a")
    case True
    from Cons.prems(1) have "\<forall>x\<in>set xs. f a \<noteq> f x" by auto
    then have "filter (\<lambda>x. f a = f x) xs = []" by (simp add: filter_empty_conv)
    with True show ?thesis by simp
  next
    case False
    with Cons.prems have kin: "k \<in> set xs" by simp
    then have "f k \<in> f ` set xs" by (rule imageI)
    moreover from Cons.prems(1) have "f a \<notin> f ` set xs" by simp
    ultimately have "f k \<noteq> f a" by metis
    note kin this
    moreover from Cons.prems(1) have "distinct (map f xs)" by simp
    ultimately show ?thesis using Cons by simp
  qed
qed

lemma sort_key_unique:
  assumes "mset zs = mset es" and "sorted (map f es)" and "distinct (map f es)"
  shows "sort_key f zs = es"
proof (rule properties_for_sort_key)
  show "mset es = mset zs" using assms(1) by simp
  show "sorted (map f es)" by (rule assms(2))
  fix k assume k: "k \<in> set es"
  from assms(1) have "mset (map f zs) = mset (map f es)" by simp
  with assms(3) have "distinct (map f zs)" by (metis mset_eq_imp_distinct_iff)
  moreover from k assms(1) have "k \<in> set zs" by (metis mset_eq_setD)
  ultimately have "filter (\<lambda>x. f k = f x) zs = [k]" by (rule filter_key_singleton)
  moreover from assms(3) k have "filter (\<lambda>x. f k = f x) es = [k]" by (rule filter_key_singleton)
  ultimately show "filter (\<lambda>x. f k = f x) es = filter (\<lambda>x. f k = f x) zs" by simp
qed

section \<open>Persistence round trip\<close>

text \<open>
  Claim C8. Saving a list and loading it again returns the same list (the same entries in
  the same order), whatever the store held before; this covers every non-empty list.
  Loading returns the empty list when nothing is stored under the key, and when the stored
  record has no entries field. \<open>loadHistory\<close> is a total function with no error result.
\<close>

theorem storage_roundtrip:
  "loadHistory (saveHistory es m) = es \<and>
   (m STORAGE_KEY = None \<longrightarrow> loadHistory m = []) \<and>
   (m STORAGE_KEY = Some d \<and> entriesField d = None \<longrightarrow> loadHistory m = [])"
  by (simp add: loadHistory_def saveHistory_def)

theorem storage_roundtrip_witness:
  "loadHistory (saveHistory (entries sampleState) Map.empty) = entries sampleState \<and>
   entries sampleState \<noteq> [] \<and>
   loadHistory Map.empty = [] \<and>
   loadHistory [STORAGE_KEY \<mapsto> \<lparr>entriesField = None, version = ''0.9.0''\<rparr>] = []"
  using storage_roundtrip [of "entries sampleState" Map.empty]
    storage_roundtrip [of "[]" "[STORAGE_KEY \<mapsto> \<lparr>entriesField = None, version = ''0.9.0''\<rparr>]"
      "\<lparr>entriesField = None, version = ''0.9.0''\<rparr>"]
  by (simp add: sampleState_def)

section \<open>Operations on an unknown id\<close>

text \<open>
  Claim C9. When no entry of the list has the given id, deleteEntry, togglePin and
  copyToClipboard each return without an error and leave the whole state as it was: the
  list, the last-observed clipboard text, the store and the trace of effects (so no store
  update, no change notification, no clipboard write, no message). This holds whatever the
  host would have answered to a store update or a clipboard write.
\<close>

theorem unknown_id_noop:
  assumes "i \<notin> idE ` set (entries s)"
  shows "deleteEntry i ok s = (None, s) \<and> togglePin i ok s = (None, s) \<and>
         copyToClipboard i ok s = (None, s)"
proof -
  from assms have "findIndex (\<lambda>e. idE e = i) (entries s) = None"
    by (auto simp: findIndex_None_iff)
  moreover from assms have "find (\<lambda>e. idE e = i) (entries s) = None"
    by (auto simp: find_None_iff)
  ultimately show ?thesis
    by (simp add: deleteEntry_def togglePin_def copyToClipboard_def)
qed

theorem unknown_id_noop_witness:
  "''3-c'' \<notin> idE ` set (entries sampleState) \<and>
   deleteEntry ''3-c'' False sampleState = (None, sampleState) \<and>
   togglePin ''3-c'' False sampleState = (None, sampleState) \<and>
   copyToClipboard ''3-c'' False sampleState = (None, sampleState)"
proof -
  have h: "''3-c'' \<notin> idE ` set (entries sampleState)"
    by (simp add: sampleState_def plainEntry_def)
  from h unknown_id_noop [OF h, of False] show ?thesis
    by blast
qed

section \<open>Empty clipboard text\<close>

text \<open>
  Claim C10. A polling tick that reads the empty string returns the state unchanged: no
  entry is added, the last-observed text keeps its value even when it is a different
  non-empty string, the store and the trace of effects are untouched. Consequently every
  entry present after any tick either was present before or has non-empty content.
\<close>

theorem empty_read_noop:
  "checkClipboard rx (Some []) io s = s \<and>
   (\<forall>e\<in>set (entries (checkClipboard rx r io s)). e \<in> set (entries s) \<or> content e \<noteq> [])"
proof
  show "checkClipboard rx (Some []) io s = s"
    by (simp add: checkClipboard_def)
next
  show "\<forall>e\<in>set (entries (checkClipboard rx r io s)). e \<in> set (entries s) \<or> content e \<noteq> []"
  proof
    fix e
    assume e: "e \<in> set (entries (checkClipboard rx r io s))"
    show "e \<in> set (entries s) \<or> content e \<noteq> []"
    proof (cases r)
      case None
      with e show ?thesis by (simp add: checkClipboard_def)
    next
      case (Some c)
      show ?thesis
      proof (cases "e \<in> set (entries s)")
        case True
        then show ?thesis by simp
      next
        case False
        with e Some
        have "e \<in> set (enforceLimit (maxHistorySize (config s)) (newEntry rx c None io # entries s))
              \<and> c \<noteq> []"
          by (auto simp: checkClipboard_def Let_def entries_addEntry split: if_splits)
        with False set_enforceLimit have "e = newEntry rx c None io \<and> c \<noteq> []"
          by fastforce
        then show ?thesis by (simp add: newEntry_def)
      qed
    qed
  qed
qed

theorem empty_read_noop_witness:
  "lastClipboardContent sampleState = ''world'' \<and>
   checkClipboard matchNothing (Some []) (hostAt 3 ''3-c'') sampleState = sampleState \<and>
   list_all (\<lambda>e. e \<in> set (entries sampleState) \<or> content e \<noteq> [])
     (entries (checkClipboard matchNothing (Some ''new'') (hostAt 3 ''3-c'') sampleState))"
proof -
  have "lastClipboardContent sampleState = ''world''"
    by (simp add: sampleState_def)
  with empty_read_noop [of matchNothing "hostAt 3 ''3-c''" sampleState "Some ''new''"]
  show ?thesis
    unfolding list_all_iff by blast
qed

section \<open>The size limit\<close>

text \<open>
  Claim C1, as stated, fails: togglePin and updateConfig do not cut the list. In the run
  below the limit is one; an entry is captured and pinned, a second is captured, and
  unpinning the first leaves two unpinned entries.
\<close>

theorem size_limit_counterexample:
  "\<not> withinLimit (exec matchNothing (construct Map.empty smallConfiguration) overflowRun)"
  by code_simp

text \<open>
  Claim C1, amended. With a limit that is not negative: after addEntry the number of
  unpinned entries is at most the limit, from any state, and addEntry removes no pinned
  entry; clearHistory leaves no entry; a polling tick, deleteEntry and the cleanup sweep
  keep the count within the limit when it was within it. togglePin raises the count by at
  most one and updateConfig leaves the list as it is; neither cuts the list.
\<close>

theorem size_limit_by_operation:
  assumes "0 \<le> maxHistorySize (config s)"
  shows "withinLimit (snd (addEntry rx c src io s)) \<and>
         withinLimit (snd (clearHistory ok s)) \<and>
         filter isPinned (entries (snd (addEntry rx c src io s))) = filter isPinned (entries s) \<and>
         (withinLimit s \<longrightarrow>
            withinLimit (checkClipboard rx r io s) \<and>
            withinLimit (snd (deleteEntry i ok s)) \<and>
            withinLimit (cleanupOldEntries t ok s)) \<and>
         unpinnedCount (entries (snd (togglePin i ok s))) \<le> Suc (unpinnedCount (entries s)) \<and>
         entries (updateConfig cfg s) = entries s"
proof -
  have add: "withinLimit (snd (addEntry rx c src io s))"
    using assms by (simp add: withinLimit_def entries_addEntry config_addEntry unpinnedCount_enforceLimit)
  have keep: "filter isPinned (entries (snd (addEntry rx c src io s))) = filter isPinned (entries s)"
    by (simp add: entries_addEntry pinned_enforceLimit newEntry_def)
  have clear: "withinLimit (snd (clearHistory ok s))"
    using assms by (simp add: withinLimit_def entries_clearHistory config_clearHistory unpinnedCount_def)
  have tick: "withinLimit (checkClipboard rx r io s)" if "withinLimit s"
    using entries_checkClipboard [of rx r io s] that assms
    by (auto simp: withinLimit_def config_checkClipboard unpinnedCount_enforceLimit)
  have del: "withinLimit (snd (deleteEntry i ok s))" if "withinLimit s"
  proof -
    have "unpinnedCount (entries (snd (deleteEntry i ok s))) \<le> unpinnedCount (entries s)"
      by (simp add: entries_deleteEntry unpinnedCount_remove split: option.splits)
    with that show ?thesis by (simp add: withinLimit_def config_deleteEntry)
  qed
  have sweep: "withinLimit (cleanupOldEntries t ok s)" if "withinLimit s"
  proof -
    have "unpinnedCount (entries (cleanupOldEntries t ok s)) \<le> unpinnedCount (entries s)"
      by (simp add: entries_cleanupOldEntries unpinnedCount_filter)
    with that show ?thesis by (simp add: withinLimit_def config_cleanupOldEntries)
  qed
  have pin: "unpinnedCount (entries (snd (togglePin i ok s))) \<le> Suc (unpinnedCount (entries s))"
    by (simp add: entries_togglePin unpinnedCount_togglePin_entries)
  have upd: "entries (updateConfig cfg s) = entries s"
    by (simp add: updateConfig_def)
  from add keep clear tick del sweep pin upd show ?thesis by blast
qed

theorem size_limit_by_operation_witness:
  "0 \<le> maxHistorySize (config sampleState) \<and> withinLimit sampleState \<and>
   withinLimit (snd (addEntry matchNothing ''new'' None (hostAt 3 ''3-c'') sampleState)) \<and>
   withinLimit (checkClipboard matchNothing (Some ''new'') (hostAt 3 ''3-c'') sampleState) \<and>
   withinLimit (snd (deleteEntry ''1-a'' True sampleState)) \<and>
   withinLimit (cleanupOldEntries 864000000 True sampleState)"
proof -
  have h: "0 \<le> maxHistorySize (config sampleState)"
    by (simp add: sampleState_def construct_def defaultConfiguration_def)
  have w: "withinLimit sampleState"
    by (simp add: withinLimit_def unpinnedCount_def sampleState_def construct_def
        defaultConfiguration_def plainEntry_def)
  from h w size_limit_by_operation [OF h, of matchNothing "''new''" None "hostAt 3 ''3-c''" True
      "Some ''new''" "''1-a''" 864000000]
  show ?thesis by blast
qed

section \<open>Pinned entries come first\<close>

text \<open>
  Claim C2. Start from a fresh manager over any store whose saved list (if there is one)
  has its pinned entries first; the empty store of a new installation is such a store.
  After any sequence of commands (ticks, addEntry, deleteEntry, togglePin, clearHistory,
  copyToClipboard, updateConfig, and restarts that load the store again), whatever the
  host answered, every pinned entry of the list returned by getEntries precedes every
  unpinned one.
\<close>

theorem pinned_entries_first:
  assumes "pinnedFirst (loadHistory m)"
  shows "pinnedFirst (getEntries (exec rx (construct m cfg) cs))"
proof -
  from assms have "orderedState (construct m cfg)"
    by (simp add: orderedState_def construct_def)
  then have "orderedState (exec rx (construct m cfg) cs)"
    by (rule ordered_exec)
  then show ?thesis by (simp add: orderedState_def getEntries_def)
qed

theorem pinned_entries_first_witness:
  "pinnedFirst (loadHistory Map.empty) \<and>
   pinnedFirst (getEntries (exec matchNothing (construct Map.empty defaultConfiguration) pinnedHeadRun))"
proof -
  have h: "pinnedFirst (loadHistory Map.empty)"
    by (simp add: loadHistory_def)
  from h pinned_entries_first [OF h, of matchNothing defaultConfiguration pinnedHeadRun]
  show ?thesis by blast
qed

section \<open>Suppression of a repeated head\<close>

text \<open>
  Claim C3. In a state with a non-empty list, a tick that reads the content of the entry
  at the head adds nothing: the list, the store and the trace of effects stay as they
  were. Entries further down are not looked at: when the text read differs from the head,
  is not empty, differs from the last-observed text and is not excluded, an entry is added
  even if an older entry has the same content, and (with room under the limit) the number
  of entries with that content goes up by one.
\<close>

theorem head_duplicate_suppressed:
  assumes "entries s \<noteq> []"
  shows "(content (hd (entries s)) = c \<longrightarrow>
            entries (checkClipboard rx (Some c) io s) = entries s \<and>
            globalState (checkClipboard rx (Some c) io s) = globalState s \<and>
            trace (checkClipboard rx (Some c) io s) = trace s) \<and>
         (content (hd (entries s)) \<noteq> c \<and> c \<noteq> [] \<and> c \<noteq> lastClipboardContent s \<and>
          \<not> shouldExclude rx (config s) c \<and>
          int (unpinnedCount (entries s)) < maxHistorySize (config s) \<longrightarrow>
            length (filter (\<lambda>e. content e = c) (entries (checkClipboard rx (Some c) io s))) =
              Suc (length (filter (\<lambda>e. content e = c) (entries s))))"
proof (intro conjI impI)
  assume "content (hd (entries s)) = c"
  with assms show "entries (checkClipboard rx (Some c) io s) = entries s"
    by (simp add: checkClipboard_def Let_def)
next
  assume "content (hd (entries s)) = c"
  with assms show "globalState (checkClipboard rx (Some c) io s) = globalState s"
    by (simp add: checkClipboard_def Let_def)
next
  assume "content (hd (entries s)) = c"
  with assms show "trace (checkClipboard rx (Some c) io s) = trace s"
    by (simp add: checkClipboard_def Let_def)
next
  assume a: "content (hd (entries s)) \<noteq> c \<and> c \<noteq> [] \<and> c \<noteq> lastClipboardContent s \<and>
          \<not> shouldExclude rx (config s) c \<and>
          int (unpinnedCount (entries s)) < maxHistorySize (config s)"
  let ?new = "newEntry rx c None io"
  from a have "entries (checkClipboard rx (Some c) io s) =
      enforceLimit (maxHistorySize (config s)) (?new # entries s)"
    by (simp add: checkClipboard_def Let_def entries_addEntry)
  moreover from a have "int (unpinnedCount (?new # entries s)) \<le> maxHistorySize (config s)"
    by (simp add: unpinnedCount_def newEntry_def)
  ultimately have "entries (checkClipboard rx (Some c) io s) =
      filter isPinned (?new # entries s) @ filter (\<lambda>e. \<not> isPinned e) (?new # entries s)"
    by (simp only: enforceLimit_roomy)
  then have "length (filter (\<lambda>e. content e = c) (entries (checkClipboard rx (Some c) io s))) =
      length (filter (\<lambda>e. content e = c) (?new # entries s))"
    by (simp only: count_partition)
  then show "length (filter (\<lambda>e. content e = c) (entries (checkClipboard rx (Some c) io s))) =
              Suc (length (filter (\<lambda>e. content e = c) (entries s)))"
    by (simp add: newEntry_def)
qed

theorem head_duplicate_suppressed_witness:
  "entries recopiedState \<noteq> [] \<and>
   content (hd (entries recopiedState)) = ''beta'' \<and>
   lastClipboardContent recopiedState \<noteq> ''beta'' \<and>
   entries (checkClipboard matchNothing (Some ''beta'') (hostAt 4 ''4-d'') recopiedState) =
     entries recopiedState \<and>
   length (filter (\<lambda>e. content e = ''hello'') (entries sampleState)) = 1 \<and>
   length (filter (\<lambda>e. content e = ''hello'')
     (entries (checkClipboard matchNothing (Some ''hello'') (hostAt 3 ''3-c'') sampleState))) = 2"
proof -
  have r: "entries recopiedState \<noteq> []" "content (hd (entries recopiedState)) = ''beta''"
    "lastClipboardContent recopiedState \<noteq> ''beta''"
    by (simp_all add: recopiedState_def plainEntry_def)
  have n: "entries sampleState \<noteq> []"
    by (simp add: sampleState_def)
  have c: "length (filter (\<lambda>e. content e = ''hello'') (entries sampleState)) = 1"
    by (simp add: sampleState_def plainEntry_def)
  have p: "content (hd (entries sampleState)) \<noteq> ''hello'' \<and> ''hello'' \<noteq> [] \<and>
      ''hello'' \<noteq> lastClipboardContent sampleState \<and>
      \<not> shouldExclude matchNothing (config sampleState) ''hello'' \<and>
      int (unpinnedCount (entries sampleState)) < maxHistorySize (config sampleState)"
    by (simp add: sampleState_def plainEntry_def construct_def defaultConfiguration_def
        shouldExclude_def unpinnedCount_def)
  from r head_duplicate_suppressed [OF r(1), of "''beta''" matchNothing "hostAt 4 ''4-d''"]
  have "entries (checkClipboard matchNothing (Some ''beta'') (hostAt 4 ''4-d'') recopiedState) =
      entries recopiedState"
    by blast
  moreover from p head_duplicate_suppressed [OF n, of "''hello''" matchNothing "hostAt 3 ''3-c''"]
  have "length (filter (\<lambda>e. content e = ''hello'')
      (entries (checkClipboard matchNothing (Some ''hello'') (hostAt 3 ''3-c'') sampleState))) =
      Suc (length (filter (\<lambda>e. content e = ''hello'') (entries sampleState)))"
    by blast
  ultimately show ?thesis using r c by simp
qed

section \<open>Repeated content at the head of the unpinned part\<close>

text \<open>
  Claim C4, as stated, fails. A tick compares the text read with the first entry of the
  list only. In the run below ``A'' and ``X'' are captured and ``X'' is pinned, so the list
  is the pinned ``X'' (the most recent capture) followed by ``A''. When ``A'' is read again it
  differs from the most recent capture and is stored, as it would be without the pin; with
  ``X'' in the pinned part, the unpinned part now starts with two entries of content ``A''.
\<close>

theorem pinned_head_duplicate_capture:
  "map (\<lambda>e. (content e, timestamp e, isPinned e))
     (getEntries (exec matchNothing (construct Map.empty defaultConfiguration) (butlast pinnedHeadRun))) =
     [(''X'', 2, True), (''A'', 1, False)] \<and>
   map (\<lambda>e. (content e, timestamp e, isPinned e))
     (getEntries (exec matchNothing (construct Map.empty defaultConfiguration) pinnedHeadRun)) =
     [(''X'', 2, True), (''A'', 3, False), (''A'', 1, False)] \<and>
   \<not> unpinnedHeadDistinct
     (getEntries (exec matchNothing (construct Map.empty defaultConfiguration) pinnedHeadRun))"
  by code_simp

text \<open>
  Claim C4, amended. In a state where no entry is pinned and the first two entries do not
  have identical content, a polling tick leaves a list in which no entry is pinned and the
  first two entries do not have identical content; so does every sequence of polling
  ticks.
\<close>

theorem capture_keeps_head_distinct:
  assumes none: "list_all (\<lambda>e. \<not> isPinned e) (entries s)"
    and dist: "unpinnedHeadDistinct (entries s)"
  shows "unpinnedHeadDistinct (entries (checkClipboard rx r io s)) \<and>
         list_all (\<lambda>e. \<not> isPinned e) (entries (checkClipboard rx r io s)) \<and>
         (list_all isTick cs \<longrightarrow> unpinnedHeadDistinct (entries (exec rx s cs)))"
  using tick_keeps_head_distinct [OF none dist, of rx r io]
    ticks_keep_head_distinct [OF none dist, of cs rx]
  by blast

theorem capture_keeps_head_distinct_witness:
  "list_all (\<lambda>e. \<not> isPinned e) (entries recopiedState) \<and>
   unpinnedHeadDistinct (entries recopiedState) \<and>
   list_all isTick tickRun \<and>
   unpinnedHeadDistinct
     (entries (checkClipboard matchNothing (Some ''gamma'') (hostAt 4 ''4-d'') recopiedState)) \<and>
   length (entries (checkClipboard matchNothing (Some ''gamma'') (hostAt 4 ''4-d'') recopiedState)) = 4 \<and>
   unpinnedHeadDistinct (entries (exec matchNothing recopiedState tickRun)) \<and>
   length (entries (exec matchNothing recopiedState tickRun)) = 5"
proof -
  have a: "list_all (\<lambda>e. \<not> isPinned e) (entries recopiedState)"
    by (simp add: recopiedState_def plainEntry_def)
  have b: "unpinnedHeadDistinct (entries recopiedState)"
    by (simp add: unpinnedHeadDistinct_def recopiedState_def plainEntry_def)
  have t: "list_all isTick tickRun"
    by (simp add: tickRun_def)
  have l: "length (entries (checkClipboard matchNothing (Some ''gamma'') (hostAt 4 ''4-d'') recopiedState)) = 4"
    by code_simp
  have m: "length (entries (exec matchNothing recopiedState tickRun)) = 5"
    by code_simp
  from a b t l m
    capture_keeps_head_distinct [OF a b, of matchNothing "Some ''gamma''" "hostAt 4 ''4-d''" tickRun]
  show ?thesis by blast
qed

text \<open>
  The amended claim is silent on lists with a pinned head. One case is worth recording:
  when the pinned head is older than the first unpinned entry, that entry is the most
  recent capture, and a tick that reads its text again still stores it, because the
  comparison is with the first entry of the list.
\<close>

lemma stale_pinned_head_capture:
  "map (\<lambda>e. (content e, timestamp e, isPinned e))
     (getEntries (exec matchNothing (construct Map.empty defaultConfiguration) stalePinnedHeadRun)) =
   [(''X'', 1, True), (''A'', 3, False), (''A'', 2, False)]"
  by code_simp

section \<open>The cleanup sweep at its cutoff\<close>

text \<open>
  Claim C5. The store holds one unpinned entry made at 1000, the cleanup age is seven
  days, and \<^verbatim>\<open>initialize()\<close> runs exactly seven days later. The entry's timestamp equals the
  cutoff, so the entry is not older than the cutoff, and every number involved is in the
  range where the code's arithmetic is exact. The sweep run by initialize removes the
  entry: the list is empty afterwards.
\<close>

theorem cleanup_at_cutoff_removes:
  "loadHistory (globalState boundaryStart) = [boundaryEntry] \<and>
   \<not> isPinned boundaryEntry \<and>
   timestamp boundaryEntry = cutoffTime (config boundaryStart) (weekMs + 1000) \<and>
   safeInteger (weekMs + 1000) \<and>
   safeInteger (autoCleanupDays (config boundaryStart) * 24 * 60 * 60 * 1000) \<and>
   entries (snd (initialize (weekMs + 1000) True (Some []) boundaryStart)) = []"
  by code_simp

section \<open>Re-ordering on togglePin\<close>

text \<open>
  Claim C6, as stated, fails. A newly pinned entry is placed by its timestamp, not at the
  front of the pinned part: pinning the older entry of the sample list puts it behind the
  pinned entry that is newer. And the sort re-orders the other entries when they were not
  in timestamp order: in the second list ``one'' and ``two'' change places when ``three''
  is pinned.
\<close>

theorem togglePin_front_counterexample:
  "togglePin_entries ''1-a'' (entries sampleState) =
     [plainEntry ''2-b'' ''world'' 2 True, plainEntry ''1-a'' ''hello'' 1 True] \<and>
   togglePin_entries ''6-c'' skewedEntries =
     [plainEntry ''6-c'' ''three'' 6 True, plainEntry ''10-a'' ''one'' 10 False,
      plainEntry ''5-b'' ''two'' 5 False]"
  by code_simp

text \<open>
  Claim C6, amended. For an id present in the list, togglePin flips the flag of the (first)
  entry with that id and changes no other entry; the result has its pinned entries first
  and, within each part, later timestamps first, so the toggled entry takes the place its
  timestamp gives it in its new part. When the list was already in that order, all other
  entries keep their relative order.
\<close>

theorem togglePin_reorders:
  assumes "find (\<lambda>x. idE x = i) es = Some e"
  shows "mset (togglePin_entries i es) = add_mset (flipPin e) (mset (remove1 e es)) \<and>
         pinnedFirst (togglePin_entries i es) \<and>
         sorted_wrt (\<lambda>a b. isPinned a = isPinned b \<longrightarrow> timestamp b \<le> timestamp a)
           (togglePin_entries i es) \<and>
         (inOrder es \<longrightarrow>
            (\<exists>ys zs. togglePin_entries i es = ys @ flipPin e # zs \<and> ys @ zs = remove1 e es))"
proof -
  from find_position [OF assms] obtain k where
    k: "findIndex (\<lambda>x. idE x = i) es = Some k" "k < length es" "es ! k = e"
       "take k es @ drop (Suc k) es = remove1 e es"
    by blast
  let ?as = "take k es" and ?bs = "drop (Suc k) es"
  from k(2,3) have upd: "es[k := flipPin (es ! k)] = ?as @ flipPin e # ?bs"
    by (simp add: upd_conv_take_nth_drop)
  with k(1) have res: "togglePin_entries i es = sort_key sortKey (?as @ flipPin e # ?bs)"
    by (simp add: togglePin_entries_def arraySort_sort_key)
  have m: "mset (togglePin_entries i es) = add_mset (flipPin e) (mset (remove1 e es))"
    unfolding res using k(4) by (metis mset_sort mset_append mset.simps(2) union_mset_add_mset_right)
  have p: "pinnedFirst (togglePin_entries i es)"
    using k(1) by (simp add: togglePin_entries_def pinnedFirst_arraySort)
  have "sorted (map sortKey (togglePin_entries i es))"
    unfolding res by (rule sorted_sort_key)
  then have "sorted_wrt (\<lambda>a b. sortKey a \<le> sortKey b) (togglePin_entries i es)"
    by (simp add: sorted_map)
  then have t: "sorted_wrt (\<lambda>a b. isPinned a = isPinned b \<longrightarrow> timestamp b \<le> timestamp a)
      (togglePin_entries i es)"
    by (rule sorted_wrt_mono_rel [rotated]) (auto simp: sortKey_def)
  have o: "\<exists>ys zs. togglePin_entries i es = ys @ flipPin e # zs \<and> ys @ zs = remove1 e es"
    if "inOrder es"
  proof -
    from that have "sorted (map sortKey (?as @ ?bs))"
      unfolding k(4) by (rule remove1_inOrder)
    from sort_key_one_moved [OF this, of "flipPin e"] show ?thesis
      unfolding res k(4) .
  qed
  from m p t o show ?thesis by blast
qed

theorem togglePin_reorders_witness:
  "find (\<lambda>x. idE x = ''2-b'') orderedEntries = Some (plainEntry ''2-b'' ''two'' 2 False) \<and>
   inOrder orderedEntries \<and>
   pinnedFirst (togglePin_entries ''2-b'' orderedEntries) \<and>
   (\<exists>ys zs. togglePin_entries ''2-b'' orderedEntries =
        ys @ flipPin (plainEntry ''2-b'' ''two'' 2 False) # zs \<and>
      ys @ zs = remove1 (plainEntry ''2-b'' ''two'' 2 False) orderedEntries)"
proof -
  have h: "find (\<lambda>x. idE x = ''2-b'') orderedEntries = Some (plainEntry ''2-b'' ''two'' 2 False)"
    by (simp add: orderedEntries_def plainEntry_def)
  have o: "inOrder orderedEntries"
    by (simp add: inOrder_def orderedEntries_def plainEntry_def compareEntries_def)
  from h o togglePin_reorders [OF h] show ?thesis
    by blast
qed

section \<open>togglePin twice\<close>

text \<open>
  Claim C7, as stated, fails. With two entries of the same timestamp, pinning and unpinning
  the second one leaves it in front of the first. With entries out of timestamp order, two
  calls leave the list sorted by timestamp, which is not the list before.
\<close>

theorem togglePin_twice_counterexample:
  "togglePin_entries ''5-b'' (togglePin_entries ''5-b'' sameInstantEntries) =
     [plainEntry ''5-b'' ''two'' 5 False, plainEntry ''5-a'' ''one'' 5 False] \<and>
   togglePin_entries ''5-b'' (togglePin_entries ''5-b'' sameInstantEntries) \<noteq> sameInstantEntries \<and>
   togglePin_entries ''6-c'' (togglePin_entries ''6-c'' skewedEntries) \<noteq> skewedEntries"
  by code_simp

text \<open>
  Claim C7, amended. When the ids of the list are distinct and the id is present, two
  calls of togglePin give back the same entries with the same flags; and when the list
  was pinned-first with strictly decreasing timestamps within each part, they give back
  the same list.
\<close>

theorem togglePin_twice:
  assumes ids: "distinct (map idE es)" and present: "i \<in> idE ` set es"
  shows "mset (togglePin_entries i (togglePin_entries i es)) = mset es \<and>
         (strictlyInOrder es \<longrightarrow> togglePin_entries i (togglePin_entries i es) = es)"
proof -
  let ?P = "\<lambda>x. idE x = i"
  let ?ys = "togglePin_entries i es"
  from present obtain e where e: "find ?P es = Some e"
    by (cases "find ?P es") (auto simp: find_None_iff)
  then have e_in: "e \<in> set es" and e_id: "idE e = i"
    by (auto simp: find_Some_iff)
  from e_in have es: "mset es = add_mset e (mset (remove1 e es))"
    by simp
  from togglePin_entries_found [OF e] obtain zs where
    zs: "?ys = sort_key sortKey zs" "mset zs = add_mset (flipPin e) (mset (remove1 e es))"
    by blast
  then have ys: "mset ?ys = add_mset (flipPin e) (mset (remove1 e es))"
    by simp
  have "mset (map idE ?ys) = mset (map idE es)"
    unfolding mset_map ys by (subst es) (simp add: idE_flipPin e_id)
  with ids have "distinct (map idE ?ys)"
    by (metis mset_eq_imp_distinct_iff)
  then have inj: "inj_on idE (set ?ys)"
    by (simp add: distinct_map)
  from ys have x_in: "flipPin e \<in> set ?ys"
    by (metis mset_eq_setD set_mset_add_mset_insert set_mset_mset insertI1)
  then obtain x where x: "find ?P ?ys = Some x"
    by (cases "find ?P ?ys") (auto simp: find_None_iff idE_flipPin e_id)
  then have "x \<in> set ?ys" "idE x = i"
    by (auto simp: find_Some_iff)
  with inj x_in have "x = flipPin e"
    by (auto simp: inj_on_def idE_flipPin e_id)
  with x have "find ?P ?ys = Some (flipPin e)" by simp
  from togglePin_entries_found [OF this] obtain ws where
    ws: "togglePin_entries i ?ys = sort_key sortKey ws"
        "mset ws = add_mset (flipPin (flipPin e)) (mset (remove1 (flipPin e) ?ys))"
    by blast
  from ys have "mset (remove1 (flipPin e) ?ys) = mset (remove1 e es)"
    by simp
  with ws(2) es have again: "mset ws = mset es"
    by (simp add: flipPin_flipPin)
  with ws(1) have m: "mset (togglePin_entries i ?ys) = mset es"
    by simp
  have "togglePin_entries i ?ys = es" if "strictlyInOrder es"
    unfolding ws(1) using again that by (auto simp: strictlyInOrder_sorted intro: sort_key_unique)
  with m show ?thesis by blast
qed

theorem togglePin_twice_witness:
  "distinct (map idE orderedEntries) \<and> ''2-b'' \<in> idE ` set orderedEntries \<and>
   strictlyInOrder orderedEntries \<and>
   togglePin_entries ''2-b'' (togglePin_entries ''2-b'' orderedEntries) = orderedEntries"
proof -
  have d: "distinct (map idE orderedEntries)"
    by (simp add: orderedEntries_def plainEntry_def)
  have p: "''2-b'' \<in> idE ` set orderedEntries"
    by (simp add: orderedEntries_def plainEntry_def)
  have o: "strictlyInOrder orderedEntries"
    by (simp add: strictlyInOrder_def orderedEntries_def plainEntry_def compareEntries_def)
  from d p o togglePin_twice [OF d p] show ?thesis
    by blast
qed

end
